theory Spec2Isabelle
  imports Complex_Main
begin

section \<open>FastClient: a shallow embedding of \<^verbatim>\<open>src/fastclient/__init__.py\<close>\<close>

text \<open>
  The module defines one class, \<^verbatim>\<open>FastClient\<close>, whose methods run in several
  processes: the dispatcher (\<^verbatim>\<open>__init__\<close>, \<^verbatim>\<open>__setitem__\<close>, \<^verbatim>\<open>__getitem__\<close>,
  \<^verbatim>\<open>on\<close>, \<^verbatim>\<open>request\<close>, \<^verbatim>\<open>run\<close>), one \<^verbatim>\<open>_controller\<close> per pool group, the
  ticket generator \<^verbatim>\<open>_create_tickets\<close> and the telemetry loop \<^verbatim>\<open>_count_rps\<close>.
  Each method is embedded as a function on an explicit state. Exceptions are values of
  \<open>error\<close>; the clock (\<^verbatim>\<open>time()\<close>) is an input; the operations a method performs on
  objects shared between processes (lock, store, pipes, pools) are recorded, in program
  order, in a log carried by the state. Python floats are modelled by \<open>real\<close>: the
  code only subtracts, divides and compares them.
\<close>

subsection \<open>Errors and imported types\<close>

datatype error =
    StoreNotSupportedError
  | NoListenersError
  | KeyError
  | AttributeError
  | ValueError
  | ZeroDivisionError
  | Empty

text \<open>
  \<^verbatim>\<open>fastclient.types\<close> and \<^verbatim>\<open>fastclient.pools\<close> are imported by the module. Of
  \<^verbatim>\<open>RequestEvent\<close> the code uses the members \<^verbatim>\<open>RESPONSE\<close> and \<^verbatim>\<open>ERROR\<close>; of a
  \<^verbatim>\<open>RequestPool\<close> it reads \<^verbatim>\<open>id_\<close> and calls \<^verbatim>\<open>_setup\<close>,
  \<^verbatim>\<open>_get_remaining_tasks\<close> and \<^verbatim>\<open>_request\<close>. A pool is a record of a name (its
  identity) and its group id (\<open>pool_id\<close> for the attribute \<^verbatim>\<open>id_\<close>); what
  \<^verbatim>\<open>_get_remaining_tasks\<close> returns is a parameter of the controller's functions.
\<close>

datatype RequestEvent = RESPONSE | ERROR

record RequestPool =
  pool_name :: string
  pool_id :: "string option"

text \<open>
  The store of the dispatcher is a manager dictionary with string keys. A primitive
  operation on the lock or on the dictionary is a \<open>store_access\<close>.
\<close>

datatype 'v store_access =
    Acquire
  | Release
  | StoreRead string
  | StoreWrite string 'v

datatype lock = Lock

subsection \<open>The dispatcher object\<close>

record ('rq, 'cb, 'v) FastClient =
  rate :: real
  pools :: "RequestPool list"
  requests :: "'rq list"
  num_pools :: int
  max_connections :: real
  use_store :: bool
  use_rps :: bool
  ctx_manager :: bool
  store :: "(string \<rightharpoonup> 'v) option"
  store_lock :: "lock option"
  callbacks :: "RequestEvent \<Rightarrow> 'cb list"
  callback_registered :: bool
  store_log :: "'v store_access list"

text \<open>
  \<^verbatim>\<open>__init__\<close> (lines 22--64). \<^verbatim>\<open>max_connections or self._rate\<close> takes the rate when
  the argument is \<^verbatim>\<open>None\<close> or 0. The manager exists when either feature is on; the
  dictionary and the lock are allocated only with \<^verbatim>\<open>use_store\<close>. \<open>store_log\<close> is the
  record of the accesses made so far, empty at construction.
\<close>

definition init :: "real \<Rightarrow> RequestPool list \<Rightarrow> int \<Rightarrow> int option \<Rightarrow> bool \<Rightarrow> bool
    \<Rightarrow> ('rq, 'cb, 'v) FastClient" where
  "init r ps np mc us ur =
     \<lparr> rate = r,
       pools = ps,
       requests = [],
       num_pools = np,
       max_connections =
         (case mc of None \<Rightarrow> r | Some m \<Rightarrow> if m = 0 then r else of_int m),
       use_store = us,
       use_rps = ur,
       ctx_manager = (us \<or> ur),
       store = (if us then Some Map.empty else None),
       store_lock = (if us then Some Lock else None),
       callbacks = (\<lambda>_. []),
       callback_registered = False,
       store_log = [] \<rparr>"

text \<open>
  \<^verbatim>\<open>__setitem__\<close> (lines 66--74): the feature check, then acquire, write, release.
  The result pairs what the call returns or raises with the state it leaves. On an
  object whose lock or dictionary is \<^verbatim>\<open>None\<close> although \<^verbatim>\<open>_use_store\<close> is set, the
  attribute access raises.
\<close>

definition setitem :: "('rq, 'cb, 'v) FastClient \<Rightarrow> string \<Rightarrow> 'v
    \<Rightarrow> (error + unit) \<times> ('rq, 'cb, 'v) FastClient" where
  "setitem c key v =
     (if \<not> use_store c then (Inl StoreNotSupportedError, c)
      else case store_lock c of
        None \<Rightarrow> (Inl AttributeError, c)
      | Some _ \<Rightarrow>
          (case store c of
             None \<Rightarrow> (Inl AttributeError, c\<lparr> store_log := store_log c @ [Acquire] \<rparr>)
           | Some m \<Rightarrow>
               (Inr (),
                c\<lparr> store := Some (m(key \<mapsto> v)),
                   store_log := store_log c @ [Acquire, StoreWrite key v, Release] \<rparr>)))"

text \<open>
  \<^verbatim>\<open>__getitem__\<close> (lines 76--80): the feature check, then the dictionary lookup, which
  raises \<^verbatim>\<open>KeyError\<close> on a missing key. There is no call on the lock.
\<close>

definition getitem :: "('rq, 'cb, 'v) FastClient \<Rightarrow> string
    \<Rightarrow> (error + 'v) \<times> ('rq, 'cb, 'v) FastClient" where
  "getitem c key =
     (if \<not> use_store c then (Inl StoreNotSupportedError, c)
      else case store c of
        None \<Rightarrow> (Inl AttributeError, c)
      | Some m \<Rightarrow>
          (case m key of
             None \<Rightarrow> (Inl KeyError, c\<lparr> store_log := store_log c @ [StoreRead key] \<rparr>)
           | Some v \<Rightarrow> (Inr v, c\<lparr> store_log := store_log c @ [StoreRead key] \<rparr>)))"

text \<open>\<^verbatim>\<open>on\<close> (lines 82--95) appends to the list of the event and sets the flag.\<close>

definition on :: "RequestEvent \<Rightarrow> 'cb \<Rightarrow> ('rq, 'cb, 'v) FastClient \<Rightarrow> ('rq, 'cb, 'v) FastClient" where
  "on event callback c =
     c\<lparr> callbacks := (callbacks c)(event := callbacks c event @ [callback]),
        callback_registered := True \<rparr>"

text \<open>\<^verbatim>\<open>request\<close> (lines 97--111) puts the request at the end of the queue.\<close>

definition request :: "'rq \<Rightarrow> ('rq, 'cb, 'v) FastClient \<Rightarrow> ('rq, 'cb, 'v) FastClient" where
  "request rq c = c\<lparr> requests := requests c @ [rq] \<rparr>"

text \<open>
  A log respects the lock when every read and every write of the dictionary happens
  between an acquire and the release that follows it. The flag says whether the lock is
  held at the start of the log.
\<close>

fun lock_guarded :: "bool \<Rightarrow> 'v store_access list \<Rightarrow> bool" where
  "lock_guarded held [] = True"
| "lock_guarded held (Acquire # as) = lock_guarded True as"
| "lock_guarded held (Release # as) = lock_guarded False as"
| "lock_guarded held (StoreRead k # as) = (held \<and> lock_guarded held as)"
| "lock_guarded held (StoreWrite k v # as) = (held \<and> lock_guarded held as)"

subsection \<open>Starting a run\<close>

text \<open>
  \<^verbatim>\<open>run\<close> (lines 113--177) checks the registration flag, splits the pools into the
  ungrouped ones and the groups by \<^verbatim>\<open>id_\<close> (a \<^verbatim>\<open>defaultdict\<close>, so groups are in the
  order in which their ids first occur), opens one pipe per controller and starts the
  processes. A process is described by its target and the arguments that differ between
  processes; a pipe by its index in \<^verbatim>\<open>connections\<close>.
\<close>

datatype process =
    RpsCounter
  | Controller "RequestPool list" nat
  | TicketManager real "nat list"

fun add_to_group :: "string \<Rightarrow> RequestPool \<Rightarrow> (string \<times> RequestPool list) list
    \<Rightarrow> (string \<times> RequestPool list) list" where
  "add_to_group g p [] = [(g, [p])]"
| "add_to_group g p ((h, ps) # rest) =
     (if h = g then (h, ps @ [p]) # rest else (h, ps) # add_to_group g p rest)"

fun group_pools :: "RequestPool list \<Rightarrow> RequestPool list \<Rightarrow> (string \<times> RequestPool list) list
    \<Rightarrow> RequestPool list \<times> (string \<times> RequestPool list) list" where
  "group_pools [] solo groups = (solo, groups)"
| "group_pools (p # ps) solo groups =
     (case pool_id p of
        None \<Rightarrow> group_pools ps (solo @ [p]) groups
      | Some g \<Rightarrow> group_pools ps solo (add_to_group g p groups))"

text \<open>
  The result of \<open>run\<close> is the list of the processes started, in the order of their
  \<^verbatim>\<open>start()\<close> calls, and whether the method raised. \<^verbatim>\<open>ticket_recvs.pop()\<close> takes the
  receiving ends from the last pipe downwards. What follows the last start (lines
  179--195) only waits for the other processes and stops them; it is not part of the
  embedding.
\<close>

definition run :: "('rq, 'cb, 'v) FastClient \<Rightarrow> process list \<times> (error + unit)" where
  "run c =
     (if \<not> callback_registered c then ([], Inl NoListenersError)
      else if use_rps c \<and> \<not> ctx_manager c then ([], Inl AttributeError)
      else
        let (solo, groups) = group_pools (pools c) [] [];
            n = length solo + length groups;
            ticket_recvs = rev [0..<n];
            ticket_sends = [0..<n]
        in ((if use_rps c then [RpsCounter] else [])
              @ map (\<lambda>(pool, recv). Controller [pool] recv) (zip solo ticket_recvs)
              @ map (\<lambda>((g, poolgroup), recv). Controller poolgroup recv)
                  (zip groups (drop (length solo) ticket_recvs))
              @ [TicketManager (rate c) ticket_sends],
            Inr ()))"

subsection \<open>The controller\<close>

text \<open>
  A pool reports an outcome on its connection. The controller tests the outcome with
  \<^verbatim>\<open>type(result) == Response\<close>, so the embedding keeps the runtime type of an outcome:
  \<^verbatim>\<open>Response\<close> itself, a class derived from it, or any other class.
\<close>

datatype pytype = ResponseType | SubclassOfResponse string | OtherType string

record 'd outcome =
  rtype :: pytype
  rdata :: 'd

fun isinstance_Response :: "pytype \<Rightarrow> bool" where
  "isinstance_Response ResponseType = True"
| "isinstance_Response (SubclassOfResponse _) = True"
| "isinstance_Response (OtherType _) = False"

text \<open>The context dictionary, in insertion order.\<close>

datatype ctx_value = Callable | RpsValue real | RpsCount nat | StoreHandle

type_synonym callback_context = "(string \<times> ctx_value) list"

datatype ('rq, 'cb, 'd) ctrl_event =
    TicketRecv
  | Submit RequestPool 'rq
  | TaskDone
  | ResultRecv nat "'d outcome"
  | RpsSend
  | LockAcquire
  | LockRelease
  | Call RequestEvent 'cb "'d outcome" callback_context

text \<open>
  The state of one controller: its counter of requests in flight, the tickets waiting in
  its pipe, the request queue, the outcomes waiting on each pool connection (in the order
  of \<^verbatim>\<open>pools\<close>), and the trace of what it has done.
\<close>

record ('rq, 'cb, 'd) controller =
  counter :: int
  ticket_pipe :: nat
  req_queue :: "'rq list"
  connections :: "'d outcome list list"
  trace :: "('rq, 'cb, 'd) ctrl_event list"

text \<open>
  Python's \<^verbatim>\<open>min(iterable, key=f)\<close>: \<^verbatim>\<open>ValueError\<close> on an empty iterable; otherwise the
  first element is the candidate and a later element replaces it only when its key is
  strictly smaller.
\<close>

fun min_from :: "('a \<Rightarrow> int) \<Rightarrow> 'a \<Rightarrow> 'a list \<Rightarrow> 'a" where
  "min_from key best [] = best"
| "min_from key best (x # xs) = min_from key (if key x < key best then x else best) xs"

definition py_min :: "('a \<Rightarrow> int) \<Rightarrow> 'a list \<Rightarrow> error + 'a" where
  "py_min key xs = (case xs of [] \<Rightarrow> Inl ValueError | x # rest \<Rightarrow> Inr (min_from key x rest))"

text \<open>
  Admission (lines 220--227). \<open>remaining p\<close> is what \<^verbatim>\<open>p._get_remaining_tasks()\<close>
  returns at this step. The result is the exception raised, if any, and the state left:
  \<^verbatim>\<open>requests.get(block=False)\<close> raises \<^verbatim>\<open>Empty\<close> after the ticket has been received.
\<close>

definition admit :: "(RequestPool \<Rightarrow> int) \<Rightarrow> RequestPool list \<Rightarrow> ('rq, 'cb, 'd) controller
    \<Rightarrow> error option \<times> ('rq, 'cb, 'd) controller" where
  "admit remaining ps st =
     (if ticket_pipe st = 0 then (None, st)
      else
        let st1 = st\<lparr> ticket_pipe := ticket_pipe st - 1, trace := trace st @ [TicketRecv] \<rparr>
        in case py_min remaining ps of
             Inl e \<Rightarrow> (Some e, st1)
           | Inr pool \<Rightarrow>
               (case req_queue st1 of
                  [] \<Rightarrow> (Some Empty, st1)
                | rq # rest \<Rightarrow>
                    (None,
                     st1\<lparr> req_queue := rest,
                          counter := counter st1 + 1,
                          trace := trace st1 @ [Submit pool rq, TaskDone] \<rparr>)))"

text \<open>
  The context (lines 238--250) and the delivery of one outcome (lines 230--258).
  \<open>snapshot\<close> is what the three telemetry scalars hold when they are read.
\<close>

definition build_context :: "bool \<Rightarrow> bool \<Rightarrow> real \<times> nat \<times> nat \<Rightarrow> callback_context" where
  "build_context use_rps' use_store' snapshot =
     [(''retry'', Callable), (''exit'', Callable)]
     @ (if use_rps' then
          [(''rps'', RpsValue (fst snapshot)),
           (''rps10'', RpsCount (fst (snd snapshot))),
           (''rps1'', RpsCount (snd (snd snapshot)))]
        else [])
     @ (if use_store' then [(''store'', StoreHandle)] else [])"

definition deliver :: "(RequestEvent \<Rightarrow> 'cb list) \<Rightarrow> bool \<Rightarrow> bool \<Rightarrow> real \<times> nat \<times> nat
    \<Rightarrow> 'd outcome \<Rightarrow> ('rq, 'cb, 'd) ctrl_event list" where
  "deliver cbs use_store' use_rps' snapshot result =
     (let context' = build_context use_rps' use_store' snapshot in
        (if use_rps' then [RpsSend] else [])
        @ (if use_store' then [LockAcquire] else [])
        @ (if rtype result = ResponseType
           then map (\<lambda>callback. Call RESPONSE callback result context') (cbs RESPONSE)
           else map (\<lambda>callback. Call ERROR callback result context') (cbs ERROR))
        @ (if use_store' then [LockRelease] else []))"

text \<open>
  Reaping (line 229): \<^verbatim>\<open>wait_for_connection(connections, timeout=0)\<close> returns the
  connections that have an outcome waiting, taken here in the order of \<^verbatim>\<open>connections\<close>;
  one outcome is received from each.
\<close>

fun reap_from :: "(RequestEvent \<Rightarrow> 'cb list) \<Rightarrow> bool \<Rightarrow> bool \<Rightarrow> real \<times> nat \<times> nat
    \<Rightarrow> nat \<Rightarrow> 'd outcome list list \<Rightarrow> int \<times> 'd outcome list list \<times> ('rq, 'cb, 'd) ctrl_event list" where
  "reap_from cbs us ur snapshot i [] = (0, [], [])"
| "reap_from cbs us ur snapshot i ([] # conns) =
     (let (k, conns', evs) = reap_from cbs us ur snapshot (Suc i) conns
      in (k, [] # conns', evs))"
| "reap_from cbs us ur snapshot i ((result # waiting) # conns) =
     (let (k, conns', evs) = reap_from cbs us ur snapshot (Suc i) conns
      in (k + 1, waiting # conns',
          ResultRecv i result # deliver cbs us ur snapshot result @ evs))"

definition reap :: "(RequestEvent \<Rightarrow> 'cb list) \<Rightarrow> bool \<Rightarrow> bool \<Rightarrow> real \<times> nat \<times> nat
    \<Rightarrow> ('rq, 'cb, 'd) controller \<Rightarrow> ('rq, 'cb, 'd) controller" where
  "reap cbs us ur snapshot st =
     (let (k, conns', evs) = reap_from cbs us ur snapshot 0 (connections st)
      in st\<lparr> counter := counter st - k, connections := conns', trace := trace st @ evs \<rparr>)"

text \<open>
  One pass of the loop (lines 215--260): leave when nothing is in flight and the queue
  is empty; otherwise admit and reap. \<^verbatim>\<open>Empty\<close> is caught and ends the pass before the
  reaping; any other exception ends the controller.
\<close>

datatype 'a pass_result = Break 'a | Continue 'a | Raise error 'a

definition controller_pass :: "RequestPool list \<Rightarrow> (RequestPool \<Rightarrow> int)
    \<Rightarrow> (RequestEvent \<Rightarrow> 'cb list) \<Rightarrow> bool \<Rightarrow> bool \<Rightarrow> real \<times> nat \<times> nat
    \<Rightarrow> ('rq, 'cb, 'd) controller \<Rightarrow> ('rq, 'cb, 'd) controller pass_result" where
  "controller_pass ps remaining cbs us ur snapshot st =
     (if counter st = 0 \<and> req_queue st = [] then Break st
      else case admit remaining ps st of
             (Some Empty, st') \<Rightarrow> Continue st'
           | (Some e, st') \<Rightarrow> Raise e st'
           | (None, st') \<Rightarrow> Continue (reap cbs us ur snapshot st'))"

subsection \<open>The ticket generator\<close>

text \<open>
  \<^verbatim>\<open>_create_tickets\<close> (lines 262--271). A channel is the list of the tickets sent on one
  connection; a ticket carries no payload (\<^verbatim>\<open>None\<close>) and is recorded by the clock value
  of the pass that sent it. \<^verbatim>\<open>1 / rate\<close> raises on a zero rate.
\<close>

record ticket_state =
  last_tickets :: real
  channels :: "real list list"

definition ticket_pass :: "real \<Rightarrow> ticket_state \<Rightarrow> real \<Rightarrow> error + ticket_state" where
  "ticket_pass rate' st time' =
     (if rate' = 0 then Inl ZeroDivisionError
      else if time' - last_tickets st > 1 / rate'
      then Inr \<lparr> last_tickets = time', channels = map (\<lambda>ch. ch @ [time']) (channels st) \<rparr>
      else Inr st)"

text \<open>
  The loop never returns; it is stopped from outside. The embedding runs it over the
  clock values read by its first passes, which gives the state at the moment it is
  stopped.
\<close>

fun ticket_passes :: "real \<Rightarrow> ticket_state \<Rightarrow> real list \<Rightarrow> error + ticket_state" where
  "ticket_passes rate' st [] = Inr st"
| "ticket_passes rate' st (time' # clock) =
     (case ticket_pass rate' st time' of
        Inl e \<Rightarrow> Inl e
      | Inr st' \<Rightarrow> ticket_passes rate' st' clock)"

definition create_tickets :: "real \<Rightarrow> nat \<Rightarrow> real list \<Rightarrow> error + ticket_state" where
  "create_tickets rate' n clock =
     ticket_passes rate' \<lparr> last_tickets = 0, channels = replicate n [] \<rparr> clock"

definition total_tickets :: "ticket_state \<Rightarrow> nat" where
  "total_tickets st = sum_list (map length (channels st))"

fun separated :: "real \<Rightarrow> real list \<Rightarrow> bool" where
  "separated d (a # b # ts) = (b - a > d \<and> separated d (b # ts))"
| "separated d _ = True"

text \<open>
  The invariant of the generator's loop for a minimal distance \<open>d\<close>: every channel is
  separated by \<open>d\<close>, its last ticket is the one recorded in \<^verbatim>\<open>last_tickets\<close>, and all
  channels hold the same tickets.
\<close>

definition ticket_inv :: "real \<Rightarrow> ticket_state \<Rightarrow> bool" where
  "ticket_inv d st = (\<forall>ch \<in> set (channels st).
      separated d ch \<and> (ch \<noteq> [] \<longrightarrow> last ch = last_tickets st)
      \<and> (\<forall>ch' \<in> set (channels st). ch' = ch))"

subsection \<open>Telemetry\<close>

text \<open>
  \<^verbatim>\<open>_count_rps\<close> (lines 273--297). The two inner loops move the head of \<^verbatim>\<open>list1\<close> to
  the end of \<^verbatim>\<open>list9\<close>, and drop the head of \<^verbatim>\<open>list9\<close>, while the head is smaller
  than \<^verbatim>\<open>time_-1\<close>.
\<close>

record rps_state =
  count :: nat
  start :: real
  list9 :: "real list"
  list1 :: "real list"
  rps :: real
  rps10 :: nat
  rps1 :: nat

fun move_lists :: "real \<Rightarrow> real list \<Rightarrow> real list \<Rightarrow> real list \<times> real list" where
  "move_lists time' [] l9 = ([], l9)"
| "move_lists time' (x # l1) l9 =
     (if x < time' - 1 then move_lists time' l1 (l9 @ [x]) else (x # l1, l9))"

fun pop_list9 :: "real \<Rightarrow> real list \<Rightarrow> real list" where
  "pop_list9 time' [] = []"
| "pop_list9 time' (x # l9) = (if x < time' - 1 then pop_list9 time' l9 else x # l9)"

text \<open>
  One notification (lines 283--297), received at clock value \<open>time'\<close> (the source's
  \<^verbatim>\<open>time_\<close>). The division
  raises when the clock still shows the start value.
\<close>

definition rps_notify :: "rps_state \<Rightarrow> real \<Rightarrow> error + rps_state" where
  "rps_notify st time' =
     (let count' = count st + 1;
          (l1, l9) = move_lists time' (list1 st @ [time']) (list9 st);
          l9' = pop_list9 time' l9
      in if time' - start st = 0 then Inl ZeroDivisionError
         else Inr \<lparr> count = count', start = start st, list9 = l9', list1 = l1,
                    rps = real count' / (time' - start st),
                    rps10 = length l1 + length l9',
                    rps1 = length l1 \<rparr>)"

fun rps_notifications :: "rps_state \<Rightarrow> real list \<Rightarrow> error + rps_state" where
  "rps_notifications st [] = Inr st"
| "rps_notifications st (time' # clock) =
     (case rps_notify st time' of
        Inl e \<Rightarrow> Inl e
      | Inr st' \<Rightarrow> rps_notifications st' clock)"

text \<open>
  The loop from its start at clock value \<open>start'\<close>, over the clock values of the
  notifications it receives. The three shared scalars are created by \<^verbatim>\<open>run\<close> as 0.
\<close>

definition count_rps :: "real \<Rightarrow> real list \<Rightarrow> error + rps_state" where
  "count_rps start' clock =
     rps_notifications
       \<lparr> count = 0, start = start', list9 = [], list1 = [], rps = 0, rps10 = 0, rps1 = 0 \<rparr>
       clock"

subsection \<open>Sequences of calls and projections of traces\<close>

text \<open>
  A caller drives the dispatcher by a sequence of calls. \<open>do_calls\<close> gives the object
  after the sequence (an exception raised by a call is the caller's to handle and leaves
  the state the call reports). \<open>registered\<close> is the list of the callbacks that the
  sequence registers for an event, in the order of the \<^verbatim>\<open>on\<close> calls.
\<close>

datatype ('rq, 'cb, 'v) call =
    CallOn RequestEvent 'cb
  | CallRequest 'rq
  | CallSet string 'v
  | CallGet string

fun do_call :: "('rq, 'cb, 'v) FastClient \<Rightarrow> ('rq, 'cb, 'v) call \<Rightarrow> ('rq, 'cb, 'v) FastClient" where
  "do_call c (CallOn event callback) = on event callback c"
| "do_call c (CallRequest rq) = request rq c"
| "do_call c (CallSet key v) = snd (setitem c key v)"
| "do_call c (CallGet key) = snd (getitem c key)"

definition do_calls :: "('rq, 'cb, 'v) FastClient \<Rightarrow> ('rq, 'cb, 'v) call list
    \<Rightarrow> ('rq, 'cb, 'v) FastClient" where
  "do_calls c calls = foldl do_call c calls"

fun registered :: "RequestEvent \<Rightarrow> ('rq, 'cb, 'v) call list \<Rightarrow> 'cb list" where
  "registered event [] = []"
| "registered event (CallOn event' callback # calls) =
     (if event' = event then callback # registered event calls else registered event calls)"
| "registered event (_ # calls) = registered event calls"

fun is_on :: "('rq, 'cb, 'v) call \<Rightarrow> bool" where
  "is_on (CallOn _ _) = True"
| "is_on _ = False"

text \<open>The callback invocations of a trace, in order.\<close>

fun invocations :: "('rq, 'cb, 'd) ctrl_event list
    \<Rightarrow> (RequestEvent \<times> 'cb \<times> 'd outcome \<times> callback_context) list" where
  "invocations [] = []"
| "invocations (Call event callback result context' # evs) =
     (event, callback, result, context') # invocations evs"
| "invocations (_ # evs) = invocations evs"

text \<open>
  The outcomes a reaping step receives are the first ones waiting on each connection, and
  the batch of an outcome is the list of invocations it is due: the callbacks of its kind,
  in order.
\<close>

definition heads :: "'a list list \<Rightarrow> 'a list" where
  "heads conns = concat (map (take 1) conns)"

definition batch :: "(RequestEvent \<Rightarrow> 'cb list) \<Rightarrow> callback_context \<Rightarrow> 'd outcome
    \<Rightarrow> (RequestEvent \<times> 'cb \<times> 'd outcome \<times> callback_context) list" where
  "batch cbs context' result =
     (let kind = (if rtype result = ResponseType then RESPONSE else ERROR)
      in map (\<lambda>callback. (kind, callback, result, context')) (cbs kind))"

section \<open>Properties\<close>

subsection \<open>What a sequence of calls preserves\<close>

lemma use_store_do_call: "use_store (do_call c x) = use_store c"
  by (cases x) (auto simp: on_def request_def setitem_def getitem_def split: option.splits)

lemma use_store_do_calls: "use_store (do_calls c calls) = use_store c"
  unfolding do_calls_def
  by (induction calls arbitrary: c) (simp_all add: use_store_do_call)

lemma disabled_do_call:
  "\<not> use_store c \<Longrightarrow>
     store (do_call c x) = store c \<and> store_lock (do_call c x) = store_lock c
     \<and> store_log (do_call c x) = store_log c"
  by (cases x) (auto simp: on_def request_def setitem_def getitem_def)

lemma disabled_do_calls:
  "\<not> use_store c \<Longrightarrow>
     \<not> use_store (do_calls c calls) \<and> store (do_calls c calls) = store c
     \<and> store_lock (do_calls c calls) = store_lock c
     \<and> store_log (do_calls c calls) = store_log c"
  unfolding do_calls_def
  by (induction calls arbitrary: c) (simp_all add: use_store_do_call disabled_do_call)

lemma registered_flag_do_call: "callback_registered c \<Longrightarrow> callback_registered (do_call c x)"
  by (cases x) (auto simp: on_def request_def setitem_def getitem_def split: option.splits)

lemma registered_flag_do_calls:
  "callback_registered c \<Longrightarrow> callback_registered (do_calls c calls)"
  unfolding do_calls_def
  by (induction calls arbitrary: c) (simp_all add: registered_flag_do_call)

lemma unregistered_do_call:
  "\<not> is_on x \<Longrightarrow> callback_registered (do_call c x) = callback_registered c"
  by (cases x) (auto simp: request_def setitem_def getitem_def split: option.splits)

lemma unregistered_do_calls:
  "\<forall>x\<in>set calls. \<not> is_on x \<Longrightarrow>
     callback_registered (do_calls c calls) = callback_registered c"
  unfolding do_calls_def
  by (induction calls arbitrary: c) (simp_all add: unregistered_do_call)

lemma ctx_manager_do_call:
  "ctx_manager (do_call c x) = ctx_manager c \<and> use_rps (do_call c x) = use_rps c"
  by (cases x) (auto simp: on_def request_def setitem_def getitem_def split: option.splits)

lemma ctx_manager_do_calls:
  "ctx_manager (do_calls c calls) = ctx_manager c \<and> use_rps (do_calls c calls) = use_rps c"
  unfolding do_calls_def
  by (induction calls arbitrary: c) (simp_all add: ctx_manager_do_call)

lemma run_registered_ok:
  "callback_registered c \<Longrightarrow> use_rps c \<longrightarrow> ctx_manager c \<Longrightarrow> snd (run c) = Inr ()"
  by (auto simp add: run_def Let_def split: prod.splits)

subsection \<open>The store\<close>

text \<open>
  Claim C2 says that every access to the shared store, reads as well as writes, takes the
  store lock first and releases it afterwards. \<^verbatim>\<open>__setitem__\<close> does; \<^verbatim>\<open>__getitem__\<close>
  does not. On a client with the store enabled, \<^verbatim>\<open>client['k'] = 1\<close> followed by
  \<^verbatim>\<open>client['k']\<close> returns 1, and the log of the two calls is acquire, write, release,
  read: the log of the write respects the lock, the log with the read does not.
\<close>

theorem getitem_reads_without_lock:
  "store_log (snd (getitem (snd (setitem
       (init 10 [] 8 None True True :: (nat, nat, int) FastClient) ''k'' 1)) ''k''))
     = [Acquire, StoreWrite ''k'' 1, Release, StoreRead ''k'']
   \<and> fst (getitem (snd (setitem
       (init 10 [] 8 None True True :: (nat, nat, int) FastClient) ''k'' 1)) ''k'') = Inr 1
   \<and> lock_guarded False (store_log (snd (setitem
       (init 10 [] 8 None True True :: (nat, nat, int) FastClient) ''k'' 1)))
   \<and> \<not> lock_guarded False (store_log (snd (getitem (snd (setitem
       (init 10 [] 8 None True True :: (nat, nat, int) FastClient) ''k'' 1)) ''k'')))"
  by (simp add: getitem_def setitem_def init_def)

text \<open>
  Claim C8: on a client constructed with \<^verbatim>\<open>use_store=False\<close>, after any sequence of
  calls, \<^verbatim>\<open>__setitem__\<close> and \<^verbatim>\<open>__getitem__\<close> raise \<^verbatim>\<open>StoreNotSupportedError\<close> and
  leave the object as it was; no dictionary and no lock have been allocated, and no access
  has been logged. On a client constructed with \<^verbatim>\<open>use_store=True\<close>, neither call raises
  that error.
\<close>

theorem store_disabled_capability_error:
  fixes calls :: "('rq, 'cb, 'v) call list"
  shows "(let c = do_calls (init r ps np mc False ur) calls in
       setitem c key v = (Inl StoreNotSupportedError, c)
     \<and> getitem c key = (Inl StoreNotSupportedError, c)
     \<and> store c = None \<and> store_lock c = None \<and> store_log c = [])
   \<and> (let c = do_calls (init r ps np mc True ur) calls in
       fst (setitem c key v) \<noteq> Inl StoreNotSupportedError
     \<and> fst (getitem c key) \<noteq> Inl StoreNotSupportedError)"
proof -
  let ?off = "init r ps np mc False ur :: ('rq, 'cb, 'v) FastClient"
  let ?on = "init r ps np mc True ur :: ('rq, 'cb, 'v) FastClient"
  have off: "\<not> use_store ?off" by (simp add: init_def)
  have a: "\<not> use_store (do_calls ?off calls)" "store (do_calls ?off calls) = None"
    "store_lock (do_calls ?off calls) = None" "store_log (do_calls ?off calls) = []"
    using disabled_do_calls [OF off, of calls] by (simp_all add: init_def)
  have b: "use_store (do_calls ?on calls)"
    by (simp add: use_store_do_calls init_def)
  show ?thesis
    using a b by (auto simp: Let_def setitem_def getitem_def split: option.splits)
qed

subsection \<open>Starting a run\<close>

text \<open>
  Claim C7: \<^verbatim>\<open>run\<close> raises \<^verbatim>\<open>NoListenersError\<close> when no \<^verbatim>\<open>on\<close> call has been made
  since construction, and then it has started no process (no telemetry worker, no
  controller, no ticket generator). Once \<^verbatim>\<open>on\<close> has been called, for any event and
  whatever calls follow, \<^verbatim>\<open>run\<close> starts its processes without raising.
\<close>

theorem run_requires_listener:
  fixes calls :: "('rq, 'cb, 'v) call list"
  shows "((\<forall>x\<in>set calls. \<not> is_on x) \<longrightarrow>
      run (do_calls (init r ps np mc us ur) calls) = ([], Inl NoListenersError))
   \<and> snd (run (do_calls (on event callback (do_calls (init r ps np mc us ur) calls)) calls'))
        = Inr ()"
proof -
  let ?base = "init r ps np mc us ur :: ('rq, 'cb, 'v) FastClient"
  have "callback_registered (do_calls ?base calls) = False" if "\<forall>x\<in>set calls. \<not> is_on x"
    using unregistered_do_calls [OF that, of ?base] by (simp add: init_def)
  then have first: "(\<forall>x\<in>set calls. \<not> is_on x) \<longrightarrow>
      run (do_calls ?base calls) = ([], Inl NoListenersError)"
    by (simp add: run_def)
  let ?c = "do_calls (on event callback (do_calls ?base calls)) calls'"
  have "callback_registered (on event callback (do_calls ?base calls))"
    by (simp add: on_def)
  then have reg: "callback_registered ?c"
    by (rule registered_flag_do_calls)
  have "ctx_manager ?c = (us \<or> ur)" "use_rps ?c = ur"
    by (simp_all add: ctx_manager_do_calls on_def init_def)
  then have "use_rps ?c \<longrightarrow> ctx_manager ?c" by blast
  with reg have "snd (run ?c) = Inr ()" by (rule run_registered_ok)
  with first show ?thesis by simp
qed

theorem run_requires_listener_witness:
  "\<not> is_on (CallRequest 1 :: (nat, nat, int) call)
   \<and> \<not> is_on (CallSet ''k'' 2 :: (nat, nat, int) call)
   \<and> run (do_calls (init 10 [] 8 None True True)
            [CallRequest (1::nat), CallSet ''k'' (2::int)] :: (nat, nat, int) FastClient)
       = ([], Inl NoListenersError)
   \<and> run (do_calls (on ERROR (7::nat) (do_calls (init 10 [] 8 None True True)
            [CallRequest (1::nat), CallSet ''k'' (2::int)])) [] :: (nat, nat, int) FastClient)
       = ([RpsCounter, TicketManager 10 []], Inr ())"
  using run_requires_listener
    [of "[CallRequest (1::nat), CallSet ''k'' (2::int)]" 10 "[]" 8 None True True ERROR 7 "[]"]
  by (simp add: do_calls_def run_def init_def on_def request_def setitem_def)

subsection \<open>The controller\<close>

lemma min_from_snoc:
  "min_from key b (xs @ [x]) =
     (if key x < key (min_from key b xs) then x else min_from key b xs)"
  by (induction xs arbitrary: b) simp_all

lemma min_from_least:
  "\<exists>i \<le> length xs. min_from key b xs = (b # xs) ! i
     \<and> (\<forall>j \<le> length xs. key ((b # xs) ! i) \<le> key ((b # xs) ! j))
     \<and> (\<forall>j < i. key ((b # xs) ! i) < key ((b # xs) ! j))"
proof (induction xs rule: rev_induct)
  case Nil
  show ?case by simp
next
  case (snoc x xs)
  define ys where "ys = b # xs"
  define zs where "zs = b # xs @ [x]"
  define m where "m = min_from key b xs"
  from snoc obtain i where i: "i \<le> length xs" and mi: "m = ys ! i"
    and le: "\<forall>j \<le> length xs. key m \<le> key (ys ! j)"
    and lt: "\<forall>j < i. key m < key (ys ! j)"
    unfolding ys_def m_def by metis
  have nth_old: "zs ! j = ys ! j" if "j \<le> length xs" for j
    using that unfolding zs_def ys_def
    by (metis append_Cons length_Cons less_Suc_eq_le nth_append)
  have nth_new: "zs ! Suc (length xs) = x"
    unfolding zs_def by (simp add: nth_append)
  have step: "min_from key b (xs @ [x]) = (if key x < key m then x else m)"
    unfolding m_def by (rule min_from_snoc)
  have split: "j \<le> length xs \<or> j = Suc (length xs)" if "j \<le> length (xs @ [x])" for j
    using that by auto
  have "\<exists>k \<le> length (xs @ [x]). min_from key b (xs @ [x]) = zs ! k
     \<and> (\<forall>j \<le> length (xs @ [x]). key (zs ! k) \<le> key (zs ! j))
     \<and> (\<forall>j < k. key (zs ! k) < key (zs ! j))"
  proof (cases "key x < key m")
    case True
    have a: "min_from key b (xs @ [x]) = zs ! Suc (length xs)"
      using True step nth_new by simp
    have b: "key (zs ! Suc (length xs)) \<le> key (zs ! j)" if "j \<le> length (xs @ [x])" for j
    proof -
      from split [OF that] show ?thesis
      proof
        assume j: "j \<le> length xs"
        then have "key m \<le> key (ys ! j)" using le by blast
        with True show ?thesis unfolding nth_new nth_old [OF j] by linarith
      next
        assume "j = Suc (length xs)"
        then show ?thesis by simp
      qed
    qed
    have c: "key (zs ! Suc (length xs)) < key (zs ! j)" if "j < Suc (length xs)" for j
    proof -
      from that have j: "j \<le> length xs" by simp
      then have "key m \<le> key (ys ! j)" using le by blast
      with True show ?thesis unfolding nth_new nth_old [OF j] by linarith
    qed
    from a b c show ?thesis
      by (intro exI [of _ "Suc (length xs)"]) simp
  next
    case False
    have a: "min_from key b (xs @ [x]) = zs ! i"
      using False step mi nth_old [OF i] by simp
    have b: "key (zs ! i) \<le> key (zs ! j)" if "j \<le> length (xs @ [x])" for j
    proof -
      from split [OF that] show ?thesis
      proof
        assume j: "j \<le> length xs"
        then show ?thesis using le mi unfolding nth_old [OF i] nth_old [OF j] by simp
      next
        assume "j = Suc (length xs)"
        then show ?thesis using False mi unfolding nth_old [OF i] by (simp add: nth_new)
      qed
    qed
    have c: "key (zs ! i) < key (zs ! j)" if "j < i" for j
    proof -
      from that i have j: "j \<le> length xs" by simp
      show ?thesis using lt that mi unfolding nth_old [OF i] nth_old [OF j] by simp
    qed
    from a b c i show ?thesis
      by (intro exI [of _ i]) simp
  qed
  then show ?case unfolding zs_def by simp
qed

lemma py_min_least:
  assumes "ps \<noteq> []"
  shows "\<exists>i < length ps. py_min key ps = Inr (ps ! i)
     \<and> (\<forall>j < length ps. key (ps ! i) \<le> key (ps ! j))
     \<and> (\<forall>j < i. key (ps ! i) < key (ps ! j))"
proof -
  from assms obtain b xs where ps: "ps = b # xs" by (cases ps) auto
  from min_from_least [of xs key b] obtain i where
    "i \<le> length xs" "min_from key b xs = (b # xs) ! i"
    "\<forall>j \<le> length xs. key ((b # xs) ! i) \<le> key ((b # xs) ! j)"
    "\<forall>j < i. key ((b # xs) ! i) < key ((b # xs) ! j)" by blast
  then show ?thesis
    unfolding ps py_min_def
    by (intro exI [of _ i]) (simp add: less_Suc_eq_le del: nth_Cons_Suc)
qed

text \<open>
  Claim C4: at an admission step (a ticket is waiting and the queue holds a request) the
  controller submits the request to one of its pools whose
  \<^verbatim>\<open>_get_remaining_tasks()\<close> is minimal, and among the pools with the minimal count to
  the first in the order of \<^verbatim>\<open>pools\<close>: every pool before the chosen one has a
  strictly larger count. With counts 3, 1, 4 the pool with count 1 is chosen.
\<close>

theorem admit_selects_least_busy:
  assumes "ticket_pipe st > 0" and "req_queue st = rq # rest" and "ps \<noteq> []"
  shows "\<exists>i < length ps.
      admit remaining ps st =
        (None, st\<lparr> ticket_pipe := ticket_pipe st - 1,
                    req_queue := rest,
                    counter := counter st + 1,
                    trace := trace st @ [TicketRecv, Submit (ps ! i) rq, TaskDone] \<rparr>)
      \<and> (\<forall>j < length ps. remaining (ps ! i) \<le> remaining (ps ! j))
      \<and> (\<forall>j < i. remaining (ps ! i) < remaining (ps ! j))"
proof -
  from py_min_least [OF assms(3), of remaining] obtain i where
    i: "i < length ps" "py_min remaining ps = Inr (ps ! i)"
    "\<forall>j < length ps. remaining (ps ! i) \<le> remaining (ps ! j)"
    "\<forall>j < i. remaining (ps ! i) < remaining (ps ! j)" by blast
  have "admit remaining ps st =
        (None, st\<lparr> ticket_pipe := ticket_pipe st - 1,
                    req_queue := rest,
                    counter := counter st + 1,
                    trace := trace st @ [TicketRecv, Submit (ps ! i) rq, TaskDone] \<rparr>)"
    using assms(1,2) i(2) by (simp add: admit_def Let_def)
  with i show ?thesis by blast
qed

theorem admit_selects_least_busy_witness:
  "0 < ticket_pipe \<lparr> counter = 0, ticket_pipe = 1, req_queue = [5::nat],
        connections = [[], [], []] :: int outcome list list,
        trace = [] :: (nat, nat, int) ctrl_event list \<rparr>
   \<and> [\<lparr>pool_name = ''a'', pool_id = Some ''g''\<rparr>, \<lparr>pool_name = ''b'', pool_id = Some ''g''\<rparr>,
        \<lparr>pool_name = ''c'', pool_id = Some ''g''\<rparr>] \<noteq> []
   \<and> trace (snd (admit
        (\<lambda>p. if pool_name p = ''a'' then 3 else if pool_name p = ''b'' then 1 else 4)
        [\<lparr>pool_name = ''a'', pool_id = Some ''g''\<rparr>, \<lparr>pool_name = ''b'', pool_id = Some ''g''\<rparr>,
         \<lparr>pool_name = ''c'', pool_id = Some ''g''\<rparr>]
        \<lparr> counter = 0, ticket_pipe = 1, req_queue = [5::nat],
          connections = [[], [], []] :: int outcome list list,
          trace = [] :: (nat, nat, int) ctrl_event list \<rparr>))
      = [TicketRecv, Submit \<lparr>pool_name = ''b'', pool_id = Some ''g''\<rparr> 5, TaskDone]
   \<and> trace (snd (admit
        (\<lambda>p. if pool_name p = ''a'' then 2 else 1)
        [\<lparr>pool_name = ''a'', pool_id = Some ''g''\<rparr>, \<lparr>pool_name = ''b'', pool_id = Some ''g''\<rparr>,
         \<lparr>pool_name = ''c'', pool_id = Some ''g''\<rparr>]
        \<lparr> counter = 0, ticket_pipe = 1, req_queue = [5::nat],
          connections = [[], [], []] :: int outcome list list,
          trace = [] :: (nat, nat, int) ctrl_event list \<rparr>))
      = [TicketRecv, Submit \<lparr>pool_name = ''b'', pool_id = Some ''g''\<rparr> 5, TaskDone]"
  using admit_selects_least_busy
    [of "\<lparr> counter = 0, ticket_pipe = 1, req_queue = [5::nat],
          connections = [[], [], []] :: int outcome list list,
          trace = [] :: (nat, nat, int) ctrl_event list \<rparr>" 5 "[]"
        "[\<lparr>pool_name = ''a'', pool_id = Some ''g''\<rparr>, \<lparr>pool_name = ''b'', pool_id = Some ''g''\<rparr>,
          \<lparr>pool_name = ''c'', pool_id = Some ''g''\<rparr>]"
        "\<lambda>p. if pool_name p = ''a'' then 3 else if pool_name p = ''b'' then 1 else 4"]
  by (simp add: admit_def py_min_def)

lemma callbacks_do_call:
  "callbacks (do_call c x) event = callbacks c event @ registered event [x]"
  by (cases x) (auto simp: on_def request_def setitem_def getitem_def split: option.splits)

lemma registered_Cons: "registered event (x # calls) = registered event [x] @ registered event calls"
  by (cases x) simp_all

lemma callbacks_do_calls:
  "callbacks (do_calls c calls) event = callbacks c event @ registered event calls"
  unfolding do_calls_def
proof (induction calls arbitrary: c)
  case Nil
  show ?case by simp
next
  case (Cons x calls)
  have "callbacks (foldl do_call (do_call c x) calls) event
      = callbacks (do_call c x) event @ registered event calls"
    by (rule Cons.IH)
  then show ?case
    by (simp add: callbacks_do_call registered_Cons [of event x calls])
qed

lemma invocations_append: "invocations (evs @ evs') = invocations evs @ invocations evs'"
  by (induction evs rule: invocations.induct) simp_all

lemma invocations_Call:
  "invocations (map (\<lambda>callback. Call event callback result context') cbs)
     = map (\<lambda>callback. (event, callback, result, context')) cbs"
  by (induction cbs) simp_all

lemma invocations_deliver:
  "invocations (deliver cbs us ur snapshot result) =
     (if rtype result = ResponseType
      then map (\<lambda>callback. (RESPONSE, callback, result, build_context ur us snapshot)) (cbs RESPONSE)
      else map (\<lambda>callback. (ERROR, callback, result, build_context ur us snapshot)) (cbs ERROR))"
  by (simp add: deliver_def Let_def invocations_append invocations_Call)

text \<open>
  Claim C9: for an outcome that is not a \<^verbatim>\<open>Response\<close>, the callbacks invoked are
  exactly those registered for \<^verbatim>\<open>ERROR\<close>, once for each registration and in the order
  of the \<^verbatim>\<open>on\<close> calls; no callback is invoked as a \<^verbatim>\<open>RESPONSE\<close> callback. The
  outcome is the first argument of each invocation: \<open>deliver\<close> has no raising branch.
\<close>

theorem failure_reaches_error_callbacks:
  fixes calls :: "('rq, 'cb, 'v) call list" and result :: "'d outcome"
  assumes "rtype result \<noteq> ResponseType"
  shows "invocations (deliver (callbacks (do_calls (init r ps np mc us ur) calls))
            us ur snapshot result :: ('rq, 'cb, 'd) ctrl_event list)
         = map (\<lambda>callback. (ERROR, callback, result, build_context ur us snapshot))
             (registered ERROR calls)"
proof -
  have "callbacks (do_calls (init r ps np mc us ur :: ('rq, 'cb, 'v) FastClient) calls) ERROR
      = registered ERROR calls"
    by (simp add: callbacks_do_calls init_def)
  with assms show ?thesis
    by (simp add: invocations_deliver)
qed

theorem failure_reaches_error_callbacks_witness:
  "rtype \<lparr> rtype = OtherType ''TimeoutError'', rdata = (0::int) \<rparr> \<noteq> ResponseType
   \<and> invocations (deliver (callbacks (do_calls (init 10 [] 8 None False False)
          [CallOn ERROR (1::nat), CallOn RESPONSE 2, CallRequest (7::nat), CallOn ERROR 3,
           CallOn ERROR 1] :: (nat, nat, int) FastClient))
        False False (0, 0, 0) \<lparr> rtype = OtherType ''TimeoutError'', rdata = (0::int) \<rparr>
        :: (nat, nat, int) ctrl_event list)
     = [(ERROR, 1, \<lparr> rtype = OtherType ''TimeoutError'', rdata = 0 \<rparr>,
           [(''retry'', Callable), (''exit'', Callable)]),
        (ERROR, 3, \<lparr> rtype = OtherType ''TimeoutError'', rdata = 0 \<rparr>,
           [(''retry'', Callable), (''exit'', Callable)]),
        (ERROR, 1, \<lparr> rtype = OtherType ''TimeoutError'', rdata = 0 \<rparr>,
           [(''retry'', Callable), (''exit'', Callable)])]"
  using failure_reaches_error_callbacks
    [of "\<lparr> rtype = OtherType ''TimeoutError'', rdata = (0::int) \<rparr>" 10 "[]" 8 None False False
        "[CallOn ERROR (1::nat), CallOn RESPONSE 2, CallRequest (7::nat), CallOn ERROR 3,
          CallOn ERROR 1] :: (nat, nat, int) call list" "(0, 0, 0)"]
  by (simp add: build_context_def)

text \<open>
  Claim C10: the test is \<^verbatim>\<open>type(result) == Response\<close>, not \<^verbatim>\<open>isinstance\<close>. An outcome
  whose class is derived from \<^verbatim>\<open>Response\<close> is an instance of \<^verbatim>\<open>Response\<close>, and the
  controller still invokes the \<^verbatim>\<open>ERROR\<close> callbacks for it and none of the
  \<^verbatim>\<open>RESPONSE\<close> callbacks.
\<close>

theorem subclass_of_response_routed_to_error:
  fixes result :: "'d outcome"
  assumes "rtype result = SubclassOfResponse name"
  shows "isinstance_Response (rtype result)
     \<and> invocations (deliver cbs us ur snapshot result :: ('rq, 'cb, 'd) ctrl_event list)
         = map (\<lambda>callback. (ERROR, callback, result, build_context ur us snapshot)) (cbs ERROR)
     \<and> RESPONSE \<notin> fst ` set (invocations
           (deliver cbs us ur snapshot result :: ('rq, 'cb, 'd) ctrl_event list))"
  using assms by (auto simp: invocations_deliver)

theorem subclass_of_response_routed_to_error_witness:
  "rtype \<lparr> rtype = SubclassOfResponse ''JsonResponse'', rdata = (0::int) \<rparr>
      = SubclassOfResponse ''JsonResponse''
   \<and> invocations (deliver ((\<lambda>_. [])(RESPONSE := [1::nat], ERROR := [2]))
        True False (0, 0, 0) \<lparr> rtype = SubclassOfResponse ''JsonResponse'', rdata = (0::int) \<rparr>
        :: (nat, nat, int) ctrl_event list)
     = [(ERROR, 2, \<lparr> rtype = SubclassOfResponse ''JsonResponse'', rdata = 0 \<rparr>,
           [(''retry'', Callable), (''exit'', Callable), (''store'', StoreHandle)])]"
  using subclass_of_response_routed_to_error
    [of "\<lparr> rtype = SubclassOfResponse ''JsonResponse'', rdata = (0::int) \<rparr>" "''JsonResponse''"
        "(\<lambda>_. [])(RESPONSE := [1::nat], ERROR := [2])" True False "(0, 0, 0)"]
  by (simp add: build_context_def invocations_deliver)

lemma invocations_deliver_batch:
  "invocations (deliver cbs us ur snapshot result) = batch cbs (build_context ur us snapshot) result"
  by (simp add: invocations_deliver batch_def)

lemma reap_from_eq:
  "reap_from cbs us ur snapshot i conns = (k, conns', evs) \<Longrightarrow>
     k = int (length (heads conns)) \<and> conns' = map (drop 1) conns
     \<and> invocations evs
         = concat (map (batch cbs (build_context ur us snapshot)) (heads conns))"
proof (induction cbs us ur snapshot i conns arbitrary: k conns' evs rule: reap_from.induct)
  case (1 cbs us ur snapshot i)
  then show ?case by (simp add: heads_def)
next
  case (2 cbs us ur snapshot i conns)
  then show ?case by (auto simp: heads_def split: prod.splits)
next
  case (3 cbs us ur snapshot i result waiting conns)
  then show ?case
    by (auto simp: heads_def invocations_append invocations_deliver_batch split: prod.splits)
qed

text \<open>
  One reaping step (lines 229--258) receives the first waiting outcome of every connection
  that has one, lowers the counter by their number, and invokes for each of them exactly
  one batch of callbacks: those of \<^verbatim>\<open>RESPONSE\<close> or those of \<^verbatim>\<open>ERROR\<close>, never both.
  Outcomes further back in a connection stay there for a later pass.
\<close>

theorem reap_one_batch_per_outcome:
  fixes st :: "('rq, 'cb, 'd) controller"
  shows "connections (reap cbs us ur snapshot st) = map (drop 1) (connections st)
   \<and> counter (reap cbs us ur snapshot st) = counter st - int (length (heads (connections st)))
   \<and> req_queue (reap cbs us ur snapshot st) = req_queue st
   \<and> invocations (trace (reap cbs us ur snapshot st))
       = invocations (trace st)
         @ concat (map (batch cbs (build_context ur us snapshot)) (heads (connections st)))"
proof -
  obtain k conns' and evs :: "('rq, 'cb, 'd) ctrl_event list"
    where r: "reap_from cbs us ur snapshot 0 (connections st) = (k, conns', evs)"
    using prod_cases3 by blast
  from reap_from_eq [OF r] r show ?thesis
    by (simp add: reap_def invocations_append)
qed

subsection \<open>The ticket generator\<close>

lemma separated_snoc:
  "separated d (ch @ [t]) = (separated d ch \<and> (ch \<noteq> [] \<longrightarrow> t - last ch > d))"
  by (induction d ch rule: separated.induct) auto

lemma ticket_pass_inv:
  assumes "ticket_inv (1 / r) st" and "ticket_pass r st t = Inr st'"
  shows "ticket_inv (1 / r) st' \<and> length (channels st') = length (channels st)"
  using assms
  by (auto simp: ticket_inv_def ticket_pass_def separated_snoc split: if_splits)

lemma ticket_passes_inv:
  assumes "ticket_inv (1 / r) st" and "ticket_passes r st clock = Inr st'"
  shows "ticket_inv (1 / r) st' \<and> length (channels st') = length (channels st)"
  using assms
proof (induction clock arbitrary: st)
  case Nil
  then show ?case by simp
next
  case (Cons t clock)
  from Cons.prems(2) obtain st1 where
    st1: "ticket_pass r st t = Inr st1" and rest: "ticket_passes r st1 clock = Inr st'"
    by (auto split: sum.splits)
  from ticket_pass_inv [OF Cons.prems(1) st1] Cons.IH [OF _ rest]
  show ?case by simp
qed

lemma create_tickets_inv:
  assumes "create_tickets r n clock = Inr st"
  shows "ticket_inv (1 / r) st \<and> length (channels st) = n"
proof -
  have "ticket_inv (1 / r) \<lparr> last_tickets = 0, channels = replicate n [] \<rparr>"
    by (simp add: ticket_inv_def)
  from ticket_passes_inv [OF this assms [unfolded create_tickets_def]]
  show ?thesis by simp
qed

text \<open>
  Claim C6: a pass of the ticket generator sends tickets exactly when the clock minus
  \<^verbatim>\<open>last_tickets\<close> exceeds \<^verbatim>\<open>1 / rate\<close>; it then appends one ticket to every
  channel and sets \<^verbatim>\<open>last_tickets\<close> to the clock value; otherwise it changes nothing.
  Hence, whatever clock values the passes read, on each of the \<open>n\<close> channels two
  consecutive tickets are more than \<^verbatim>\<open>1 / rate\<close> apart.
\<close>

theorem tickets_broadcast_and_separated:
  "(r \<noteq> 0 \<longrightarrow> ticket_pass r st t =
       Inr (if t - last_tickets st > 1 / r
            then \<lparr> last_tickets = t, channels = map (\<lambda>ch. ch @ [t]) (channels st) \<rparr>
            else st))
   \<and> (create_tickets r n clock = Inr st' \<longrightarrow>
        length (channels st') = n \<and> (\<forall>ch \<in> set (channels st'). separated (1 / r) ch))"
proof -
  have "length (channels st') = n \<and> (\<forall>ch \<in> set (channels st'). separated (1 / r) ch)"
    if "create_tickets r n clock = Inr st'"
    using create_tickets_inv [OF that] by (simp add: ticket_inv_def)
  then show ?thesis by (simp add: ticket_pass_def)
qed

text \<open>
  On one channel, \<open>k\<close> tickets span more than \<open>(k - 1) / rate\<close> seconds.
\<close>

lemma separated_span:
  "separated d ch \<Longrightarrow> ch \<noteq> [] \<Longrightarrow> real (length ch - 1) * d \<le> last ch - hd ch"
proof (induction d ch rule: separated.induct)
  case (1 d a b ts)
  then have "real (length (b # ts) - 1) * d \<le> last (b # ts) - b" by simp
  moreover from 1 have "d < b - a" by simp
  ultimately show ?case by (simp add: algebra_simps)
qed simp_all

lemma total_tickets_uniform:
  assumes "\<forall>ch \<in> set chs. length ch = k"
  shows "sum_list (map length chs) = length chs * k"
  using assms by (induction chs) simp_all

text \<open>
  Claim C5, amended: the bound holds for each channel, as the comment of
  \<^verbatim>\<open>_create_tickets\<close> says (``at the rate limit per connection''). For a positive rate,
  the tickets of a channel after its first, divided by the time between its first and
  its last ticket, do not exceed the rate. All channels hold the same number \<open>k\<close> of
  tickets, so the total over \<open>n\<close> channels is \<open>n * k\<close>.
\<close>

theorem ticket_rate_is_per_channel:
  assumes "0 < r" and "create_tickets r n clock = Inr st"
  shows "(\<forall>ch \<in> set (channels st).
            ch \<noteq> [] \<longrightarrow> real (length ch - 1) \<le> r * (last ch - hd ch))
       \<and> (\<exists>k. (\<forall>ch \<in> set (channels st). length ch = k) \<and> total_tickets st = n * k)"
proof -
  from create_tickets_inv [OF assms(2)]
  have inv: "ticket_inv (1 / r) st" and len: "length (channels st) = n" by simp_all
  have "real (length ch - 1) \<le> r * (last ch - hd ch)"
    if "ch \<in> set (channels st)" "ch \<noteq> []" for ch
  proof -
    from inv that have "separated (1 / r) ch" by (simp add: ticket_inv_def)
    from separated_span [OF this that(2)]
    have "real (length ch - 1) * (1 / r) \<le> last ch - hd ch" .
    with assms(1) show ?thesis by (simp add: field_simps)
  qed
  moreover have "\<exists>k. (\<forall>ch \<in> set (channels st). length ch = k) \<and> total_tickets st = n * k"
  proof (cases "channels st")
    case Nil
    with len show ?thesis by (simp add: total_tickets_def)
  next
    case (Cons c cs)
    have same: "\<forall>ch \<in> set (channels st). length ch = length c"
      using inv Cons by (auto simp: ticket_inv_def)
    from total_tickets_uniform [OF same] len
    have "total_tickets st = n * length c" by (simp add: total_tickets_def)
    with same show ?thesis by blast
  qed
  ultimately show ?thesis by blast
qed

text \<open>
  Claim C5 bounds the tickets of all channels together by the rate. With rate 1, three
  channels and passes at clock values 100, 102, 104 and 106, twelve tickets are sent in
  six seconds: two per second.
\<close>

theorem aggregate_ticket_rate_counterexample:
  "map_sum id total_tickets (create_tickets 1 3 [100, 102, 104, 106]) = Inr 12
   \<and> real 12 / (106 - 100) > 1"
  by (simp add: create_tickets_def ticket_pass_def numeral_3_eq_3 total_tickets_def)

theorem ticket_rate_is_per_channel_witness:
  "(0::real) < 1
   \<and> create_tickets 1 3 [100, 102, 104, 106] = Inr \<lparr>last_tickets = 106,
        channels = [[100, 102, 104, 106], [100, 102, 104, 106], [100, 102, 104, 106]]\<rparr>
   \<and> real (length [100, 102, 104, 106 :: real] - 1) \<le> 1 * (last [100, 102, 104, 106] - hd [100, 102, 104, 106 :: real])
   \<and> total_tickets \<lparr>last_tickets = 106,
        channels = [[100, 102, 104, 106], [100, 102, 104, 106], [100, 102, 104, 106]]\<rparr> = 3 * 4"
  using ticket_rate_is_per_channel [of 1 3 "[100, 102, 104, 106]" "\<lparr>last_tickets = 106,
        channels = [[100, 102, 104, 106], [100, 102, 104, 106], [100, 102, 104, 106]]\<rparr>"]
  by (simp add: create_tickets_def ticket_pass_def numeral_3_eq_3 total_tickets_def)

theorem tickets_broadcast_and_separated_witness:
  "(2::real) \<noteq> 0
   \<and> ticket_pass 2 \<lparr>last_tickets = 0, channels = [[], []]\<rparr> 100
        = Inr \<lparr>last_tickets = 100, channels = [[100], [100]]\<rparr>
   \<and> ticket_pass 2 \<lparr>last_tickets = 100, channels = [[100], [100]]\<rparr> 100.5
        = Inr \<lparr>last_tickets = 100, channels = [[100], [100]]\<rparr>
   \<and> create_tickets 2 2 [100, 100.5, 100.75, 101, 101.25]
        = Inr \<lparr>last_tickets = 100.75, channels = [[100, 100.75], [100, 100.75]]\<rparr>
   \<and> separated (1 / 2) [100, 100.75]"
  using tickets_broadcast_and_separated [of 2 "\<lparr>last_tickets = 0, channels = [[], []]\<rparr>" 100 2
      "[100, 100.5, 100.75, 101, 101.25]"
      "\<lparr>last_tickets = 100.75, channels = [[100, 100.75], [100, 100.75]]\<rparr>"]
  by (simp add: create_tickets_def ticket_pass_def numeral_2_eq_2)

subsection \<open>Telemetry\<close>

lemma move_lists_eq:
  "move_lists t l1 l9 = (dropWhile (\<lambda>x. x < t - 1) l1, l9 @ takeWhile (\<lambda>x. x < t - 1) l1)"
  by (induction l1 arbitrary: l9) simp_all

lemma pop_list9_eq: "pop_list9 t l9 = dropWhile (\<lambda>x. x < t - 1) l9"
  by (induction l9) simp_all

text \<open>
  Both inner loops compare with \<^verbatim>\<open>time_-1\<close>. Every entry that the first loop moves
  to \<^verbatim>\<open>list9\<close> is therefore dropped by the second one in the same notification:
  \<^verbatim>\<open>list9\<close> is empty after every notification and \<^verbatim>\<open>rps10\<close> equals \<^verbatim>\<open>rps1\<close>.
\<close>

lemma rps_notify_list9_empty:
  "rps_notify st t = Inr st' \<Longrightarrow> list9 st = [] \<Longrightarrow> list9 st' = [] \<and> rps10 st' = rps1 st'"
  by (auto simp: rps_notify_def Let_def move_lists_eq pop_list9_eq dropWhile_eq_Nil_conv
      split: if_splits dest: set_takeWhileD)

lemma rps_notifications_list9_empty:
  "rps_notifications st clock = Inr st' \<Longrightarrow> list9 st = [] \<Longrightarrow> rps10 st = rps1 st \<Longrightarrow>
     list9 st' = [] \<and> rps10 st' = rps1 st'"
proof (induction clock arbitrary: st)
  case Nil
  then show ?case by simp
next
  case (Cons t clock)
  from Cons.prems(1) obtain st1 where
    st1: "rps_notify st t = Inr st1" and rest: "rps_notifications st1 clock = Inr st'"
    by (auto split: sum.splits)
  from rps_notify_list9_empty [OF st1 Cons.prems(2)] Cons.IH [OF rest]
  show ?case by simp
qed

lemma count_rps_list9_empty:
  "count_rps s clock = Inr st \<Longrightarrow> list9 st = [] \<and> rps10 st = rps1 st"
  unfolding count_rps_def by (erule rps_notifications_list9_empty) simp_all

text \<open>
  Claim C3, amended: a notification at clock value \<open>t\<close> appends \<open>t\<close> to
  \<^verbatim>\<open>list1\<close> and moves the leading entries smaller than \<open>t - 1\<close>, in order, to the
  end of \<^verbatim>\<open>list9\<close>; \<^verbatim>\<open>rps1\<close> is the length of \<^verbatim>\<open>list1\<close> after that, and it
  changes only at a notification. For notifications at 0.0, 0.5, 1.2, 9.9 and 10.5, in a
  loop started before the first of them, \<^verbatim>\<open>list1\<close> ends as 9.9, 10.5 and
  \<^verbatim>\<open>rps1\<close> as 2, which is what a reader sees at 10.6.
\<close>

theorem rps_recent_window:
  "move_lists t l1 l9 = (dropWhile (\<lambda>x. x < t - 1) l1, l9 @ takeWhile (\<lambda>x. x < t - 1) l1)
   \<and> (t \<noteq> start st \<longrightarrow>
        (\<exists>st'. rps_notify st t = Inr st'
           \<and> list1 st' = dropWhile (\<lambda>x. x < t - 1) (list1 st @ [t])
           \<and> rps1 st' = length (list1 st')))
   \<and> (s < 0 \<longrightarrow>
        map_sum id list1 (count_rps s [0, 0.5, 1.2, 9.9, 10.5]) = Inr [9.9, 10.5]
        \<and> map_sum id rps1 (count_rps s [0, 0.5, 1.2, 9.9, 10.5]) = Inr 2)"
proof -
  have a: "t \<noteq> start st \<longrightarrow>
        (\<exists>st'. rps_notify st t = Inr st'
           \<and> list1 st' = dropWhile (\<lambda>x. x < t - 1) (list1 st @ [t])
           \<and> rps1 st' = length (list1 st'))"
    by (simp add: rps_notify_def Let_def move_lists_eq split: prod.splits)
  have b: "map_sum id list1 (count_rps s [0, 0.5, 1.2, 9.9, 10.5]) = Inr [9.9, 10.5]
        \<and> map_sum id rps1 (count_rps s [0, 0.5, 1.2, 9.9, 10.5]) = Inr 2" if "s < 0"
    using that by (simp add: count_rps_def rps_notify_def Let_def)
  from a b show ?thesis by (simp add: move_lists_eq)
qed

text \<open>
  Claim C3 expects, for these notifications, a 1-second rate of 1 and a 10-second rate
  of 3. The loop leaves \<^verbatim>\<open>rps1\<close> = 2 and \<^verbatim>\<open>rps10\<close> = 2: the entry 9.9 is
  within one second of the last notification, and \<^verbatim>\<open>list9\<close> is empty because its
  entries are dropped against \<^verbatim>\<open>time_-1\<close> as well.
\<close>

theorem rps_windows_counterexample:
  "map_sum id rps1 (count_rps (- 1) [0, 0.5, 1.2, 9.9, 10.5]) = Inr 2
   \<and> map_sum id rps10 (count_rps (- 1) [0, 0.5, 1.2, 9.9, 10.5]) = Inr 2
   \<and> map_sum id list1 (count_rps (- 1) [0, 0.5, 1.2, 9.9, 10.5]) = Inr [9.9, 10.5]
   \<and> map_sum id list9 (count_rps (- 1) [0, 0.5, 1.2, 9.9, 10.5]) = Inr []"
  by (simp add: count_rps_def rps_notify_def Let_def)

theorem rps_recent_window_witness:
  "(1.2::real) \<noteq> start \<lparr> count = 2, start = - 1, list9 = [], list1 = [0, 0.5], rps = 0, rps10 = 2, rps1 = 2 \<rparr>
   \<and> (- 1 :: real) < 0
   \<and> map_sum id list1 (rps_notify \<lparr> count = 2, start = - 1, list9 = [], list1 = [0, 0.5], rps = 0, rps10 = 2, rps1 = 2 \<rparr> 1.2)
        = Inr [0.5, 1.2]
   \<and> map_sum id rps1 (count_rps (- 1) [0, 0.5, 1.2, 9.9, 10.5]) = Inr 2"
  using rps_recent_window [of "1.2" "[0, 0.5, 1.2]" "[]"
      "\<lparr> count = 2, start = - 1, list9 = [], list1 = [0, 0.5], rps = 0, rps10 = 2, rps1 = 2 \<rparr>" "- 1"]
  by (simp add: count_rps_def rps_notify_def Let_def)

end
